theory Spec2Isabelle
  imports Main "HOL-Library.Word" "HOL-Library.AList"
begin

unbundle bit_operations_syntax

section \<open>Merkle-Patricia-trie proofs: construction and verification\<close>

text \<open>
  A shallow embedding of the proof builder \<open>Prove\<close>, the node decoder
  (\<open>decodeNode\<close>, \<open>decodeShort\<close>, \<open>decodeFull\<close>, \<open>decodeRef\<close>), the proof verifier
  (\<open>proofMap\<close>, \<open>verifyProof\<close>) and the two record cross-checkers
  (\<open>VerifyAccountProofByHash\<close>, \<open>VerifyStorageProofByHash\<close>) of package \<open>trie\<close>.

  Go byte slices are lists of 8-bit words. A Go \<open>error\<close> result is a value of the
  datatype \<open>error\<close>; a function returning \<open>(x, error)\<close> returns \<open>error + 'a\<close> with
  \<open>Inl\<close> the error, a function returning only \<open>error\<close> returns \<open>error option\<close> with
  \<open>None\<close> for \<open>nil\<close>. A Go runtime panic is the error value \<open>Panic\<close>.
\<close>

type_synonym byte = "8 word"
type_synonym bytes = "byte list"

datatype error =
    ErrUnexpectedEOF
  | ErrCanonSize
  | ErrValueTooLarge
  | ErrExpectedString
  | ErrExpectedList
  | ErrEmbeddedTooLarge
  | ErrInvalidStringSize nat
  | ErrZeroLength
  | ErrInvalidElemCount nat
  | ErrFullNodeValue
  | ErrShortHexTooLong
  | ErrMissingHash
  | ErrOutOfOrder
  | ErrValueKeyRemaining
  | ErrUnusedElements
  | ErrUnexpectedType
  | ErrUnexpectedHashNode
  | ErrProofMap error
  | ErrVerifyProof error
  | ErrAbsentNonce
  | ErrAbsentBalance
  | ErrAbsentStorageHash
  | ErrAbsentCodeHash
  | ErrAccountMismatch
  | ErrEmptyRootNonZero
  | ErrEmptyRootProof
  | ErrZeroRootProof
  | ErrStorageMismatch
  | Panic

subsection \<open>The RLP splitting functions used by the decoder\<close>

text \<open>
  Modelled from the spec: the canonical encoding codec (package \<open>rlp\<close>: \<open>Split\<close>,
  \<open>SplitString\<close>, \<open>SplitList\<close>, \<open>CountValues\<close>) is not among the sources; the spec
  describes it as "split-into-items decoding of a serialized node/list, distinguishing
  list-typed vs. string-typed items and reporting item count". The definitions follow
  the Ethereum recursive-length-prefix format: a byte below \<open>0x80\<close> is its own
  encoding, \<open>0x80..0xB7\<close> starts a short string, \<open>0xB8..0xBF\<close> a long string,
  \<open>0xC0..0xF7\<close> a short list and \<open>0xF8..0xFF\<close> a long list.
\<close>

datatype Kind = KByte | KString | KList

fun be_nat :: "bytes \<Rightarrow> nat" where
  "be_nat [] = 0"
| "be_nat (b # bs) = unat b * 256 ^ length bs + be_nat bs"

definition readSize :: "bytes \<Rightarrow> nat \<Rightarrow> error + nat" where
  "readSize b slen =
     (if slen > length b then Inl ErrUnexpectedEOF
      else let s = be_nat (take slen b) in
        if s < 56 \<or> hd b = 0 then Inl ErrCanonSize else Inr s)"

definition readKind :: "bytes \<Rightarrow> error + (Kind \<times> nat \<times> nat)" where
  "readKind buf =
     (case buf of
        [] \<Rightarrow> Inl ErrUnexpectedEOF
      | b # bs \<Rightarrow>
         (case
            (if b < 0x80 then Inr (KByte, 0, 1)
             else if b < 0xB8 then
               (if unat (b - 0x80) = 1 \<and> length buf > 1 \<and> hd bs < 128
                then Inl ErrCanonSize
                else Inr (KString, 1, unat (b - 0x80)))
             else if b < 0xC0 then
               (case readSize bs (unat (b - 0xB7)) of
                  Inl e \<Rightarrow> Inl e
                | Inr cs \<Rightarrow> Inr (KString, unat (b - 0xB7) + 1, cs))
             else if b < 0xF8 then Inr (KList, 1, unat (b - 0xC0))
             else
               (case readSize bs (unat (b - 0xF7)) of
                  Inl e \<Rightarrow> Inl e
                | Inr cs \<Rightarrow> Inr (KList, unat (b - 0xF7) + 1, cs)))
          of
            Inl e \<Rightarrow> Inl e
          | Inr (k, tagsize, contentsize) \<Rightarrow>
              if contentsize > length buf - tagsize then Inl ErrValueTooLarge
              else Inr (k, tagsize, contentsize)))"

definition Split :: "bytes \<Rightarrow> error + (Kind \<times> bytes \<times> bytes)" where
  "Split b =
     (case readKind b of
        Inl e \<Rightarrow> Inl e
      | Inr (k, ts, cs) \<Rightarrow> Inr (k, take cs (drop ts b), drop (ts + cs) b))"

definition SplitString :: "bytes \<Rightarrow> error + (bytes \<times> bytes)" where
  "SplitString b =
     (case Split b of
        Inl e \<Rightarrow> Inl e
      | Inr (k, content, rest) \<Rightarrow>
          if k = KList then Inl ErrExpectedString else Inr (content, rest))"

definition SplitList :: "bytes \<Rightarrow> error + (bytes \<times> bytes)" where
  "SplitList b =
     (case Split b of
        Inl e \<Rightarrow> Inl e
      | Inr (k, content, rest) \<Rightarrow>
          if k \<noteq> KList then Inl ErrExpectedList else Inr (content, rest))"

lemma readKind_bounds:
  assumes "readKind b = Inr (k, ts, cs)"
  shows "0 < ts + cs" and "ts + cs \<le> length b"
  using assms
  by (auto simp: readKind_def readSize_def Let_def unat_gt_0
           split: list.splits if_splits sum.splits)

function CountValues :: "bytes \<Rightarrow> error + nat" where
  "CountValues b =
     (if b = [] then Inr 0
      else case readKind b of
        Inl e \<Rightarrow> Inl e
      | Inr (k, tagsize, csize) \<Rightarrow>
          (case CountValues (drop (tagsize + csize) b) of
             Inl e \<Rightarrow> Inl e
           | Inr i \<Rightarrow> Inr (Suc i)))"
  by pat_completeness auto
termination
  by (relation "measure length") (auto dest: readKind_bounds)

declare CountValues.simps [simp del]

lemma Split_bounds:
  assumes "Split b = Inr (k, content, rest)"
  shows "length rest < length b" and "k = KList \<Longrightarrow> length content < length b"
  using assms readKind_bounds[of b]
  by (auto simp: Split_def readKind_def split: sum.splits list.splits if_splits prod.splits)

lemma SplitList_bounds: "SplitList b = Inr (c, r) \<Longrightarrow> length c < length b"
  by (auto simp: SplitList_def dest: Split_bounds split: sum.splits if_splits)

lemma SplitString_bounds: "SplitString b = Inr (c, r) \<Longrightarrow> length r < length b"
  by (auto simp: SplitString_def dest: Split_bounds split: sum.splits if_splits)

subsection \<open>Key encodings\<close>

text \<open>
  Modelled from the spec: \<open>keybytesToHex\<close>, \<open>CompactToKeybytes\<close> and \<open>Keybytes.ToHex\<close>
  are not among the sources. The spec: a key path is "a sequence of nibbles (4-bit units)
  derived from a byte key by expanding each byte into two nibbles, with one additional
  terminator nibble"; the compact path-key is "un-compacted into nibbles, recovering the
  terminator flag". The compact form is the hex-prefix encoding: bit \<open>0x20\<close> of the
  first byte is the terminator flag, bit \<open>0x10\<close> says that the number of nibbles is odd
  and that the low half of the first byte is the first nibble.
\<close>

definition nibbles_of :: "bytes \<Rightarrow> bytes" where
  "nibbles_of str = concat (map (\<lambda>b. [b div 16, b mod 16]) str)"

definition keybytesToHex :: "bytes \<Rightarrow> bytes" where
  "keybytesToHex str = nibbles_of str @ [16]"

record Keybytes =
  Data :: bytes
  Odd :: bool
  Terminating :: bool

fun shiftNibbles :: "bytes \<Rightarrow> bytes" where
  "shiftNibbles [] = []"
| "shiftNibbles [c] = [push_bit 4 c]"
| "shiftNibbles (c # d # cs) = (push_bit 4 c OR drop_bit 4 d) # shiftNibbles (d # cs)"

definition CompactToKeybytes :: "bytes \<Rightarrow> Keybytes" where
  "CompactToKeybytes c =
     (if c = [] then \<lparr>Data = [], Odd = False, Terminating = False\<rparr>
      else if hd c AND 0x10 \<noteq> 0
        then \<lparr>Data = shiftNibbles c, Odd = True, Terminating = (hd c AND 0x20 \<noteq> 0)\<rparr>
        else \<lparr>Data = tl c, Odd = False, Terminating = (hd c AND 0x20 \<noteq> 0)\<rparr>)"

definition ToHex :: "Keybytes \<Rightarrow> bytes" where
  "ToHex x =
     (let ns = nibbles_of (Data x);
          ns' = (if Odd x then butlast ns else ns)
      in if Terminating x then ns' @ [16] else ns')"

subsection \<open>Nodes\<close>

text \<open>
  The Go interface \<open>Node\<close> with its six implementations and the \<open>nil\<close> interface value
  (\<open>NilNode\<close>). A \<open>FullNode\<close> holds its array \<open>Children [17]Node\<close> as a list; reading
  it at an index that the list does not have is the runtime panic of Go's bounds check.
  The type declarations are not among the sources; the fields are those that the code
  under study reads (\<open>Key\<close>, \<open>Val\<close>, \<open>Children\<close>, \<open>mask\<close>, \<open>child1\<close>, \<open>child2\<close>,
  \<open>hash\<close>, \<open>Storage\<close>).
\<close>

datatype Account =
  Account (acc_Nonce: "64 word") (acc_Balance: nat) (acc_Root: bytes) (acc_CodeHash: bytes)

datatype node =
    NilNode
  | ShortNode bytes node
  | FullNode "node list"
  | DuoNode "32 word" node node
  | HashNode bytes
  | ValueNode bytes
  | AccountNode Account node

subsection \<open>The node decoder\<close>

text \<open>
  \<open>decodeFull\<close>'s loop \<open>for i := 0; i < 16; i++\<close> is \<open>decodeChildren\<close>, which threads
  the remaining bytes \<open>elems\<close> from one \<open>decodeRef\<close> to the next. \<open>decodeNode\<close>
  ignores the error of \<open>CountValues\<close>, whose count is then 0.
\<close>

function decodeNode :: "bytes \<Rightarrow> error + node"
  and decodeShort :: "bytes \<Rightarrow> error + node"
  and decodeFull :: "bytes \<Rightarrow> error + node"
  and decodeChildren :: "nat \<Rightarrow> bytes \<Rightarrow> error + (node list \<times> bytes)"
  and decodeRef :: "bytes \<Rightarrow> error + (node \<times> bytes)"
where
  "decodeNode encoded =
     (if length encoded = 0 then Inl ErrZeroLength
      else case SplitList encoded of
        Inl e \<Rightarrow> Inl e
      | Inr (elems, _) \<Rightarrow>
          (let c = (case CountValues elems of Inl _ \<Rightarrow> 0 | Inr c \<Rightarrow> c) in
           if c = 2 then decodeShort elems
           else if c = 17 then decodeFull elems
           else Inl (ErrInvalidElemCount c)))"
| "decodeShort elems =
     (case SplitString elems of
        Inl e \<Rightarrow> Inl e
      | Inr (kbuf, rest) \<Rightarrow>
          (let kb = CompactToKeybytes kbuf in
           if Terminating kb then
             (case SplitString rest of
                Inl e \<Rightarrow> Inl e
              | Inr (val, _) \<Rightarrow> Inr (ShortNode (ToHex kb) (ValueNode val)))
           else
             (case decodeRef rest of
                Inl e \<Rightarrow> Inl e
              | Inr (val, _) \<Rightarrow> Inr (ShortNode (ToHex kb) val))))"
| "decodeFull elems =
     (case decodeChildren 0 elems of
        Inl e \<Rightarrow> Inl e
      | Inr (children, elems') \<Rightarrow>
          (case SplitString elems' of
             Inl e \<Rightarrow> Inl e
           | Inr (val, _) \<Rightarrow>
               Inr (FullNode (children @ [if length val > 0 then ValueNode val else NilNode]))))"
| "decodeChildren i elems =
     (if i < 16 then
        (case decodeRef elems of
           Inl e \<Rightarrow> Inl e
         | Inr (child, elems') \<Rightarrow>
             (case decodeChildren (Suc i) elems' of
                Inl e \<Rightarrow> Inl e
              | Inr (children, elems'') \<Rightarrow> Inr (child # children, elems'')))
      else Inr ([], elems))"
| "decodeRef buf =
     (case Split buf of
        Inl e \<Rightarrow> Inl e
      | Inr (kind, val, rest) \<Rightarrow>
          if kind = KList then
            (if length buf - length rest \<ge> 32 then Inl ErrEmbeddedTooLarge
             else case decodeNode buf of
               Inl e \<Rightarrow> Inl e
             | Inr n \<Rightarrow> Inr (n, rest))
          else if kind = KString \<and> length val = 0 then Inr (NilNode, rest)
          else if kind = KString \<and> length val = 32 then Inr (HashNode val, rest)
          else Inl (ErrInvalidStringSize (length val)))"
  by pat_completeness auto

lemma decodeRef_rest_dom:
  assumes "decodeNode_decodeShort_decodeFull_decodeChildren_decodeRef_dom (Inr (Inr (Inr buf)))"
    and "decodeRef buf = Inr (n, rest)"
  shows "length rest < length buf"
  using assms(2) Split_bounds(1)[of buf]
  by (auto simp: decodeRef.psimps[OF assms(1)] split: sum.splits if_splits)

termination decodeNode
proof (relation "measure
     (\<lambda>x. case x of
         Inl (Inl enc) \<Rightarrow> 4 * length enc
       | Inl (Inr elems) \<Rightarrow> 4 * length elems + 2
       | Inr (Inl elems) \<Rightarrow> 4 * length elems + 3
       | Inr (Inr (Inl (i, elems))) \<Rightarrow> 4 * length elems + 2
       | Inr (Inr (Inr buf)) \<Rightarrow> 4 * length buf + 1)", goal_cases)
  case 1
  show ?case by simp
next
  case (2 encoded b elems r c)
  then show ?case using SplitList_bounds[of encoded elems r] by simp
next
  case (3 encoded b elems r c)
  then show ?case using SplitList_bounds[of encoded elems r] by simp
next
  case (4 elems b kbuf rest kb)
  then show ?case using SplitString_bounds[of elems kbuf rest] by simp
next
  case (5 elems)
  show ?case by simp
next
  case (6 i elems)
  show ?case by simp
next
  case (7 i elems b child elems')
  then show ?case using decodeRef_rest_dom[of elems child elems'] by simp
next
  case (8 buf b kind c val rest)
  show ?case by simp
qed

declare decodeNode.simps [simp del] decodeShort.simps [simp del] decodeFull.simps [simp del]
  decodeChildren.simps [simp del] decodeRef.simps [simp del]

subsection \<open>The proof maps\<close>

text \<open>
  The two Go maps keyed by \<open>common.Hash\<close> are association lists with at most one entry
  per key: \<open>m[k] = v\<close> is \<open>AList.update\<close>, \<open>delete(m, k)\<close> is \<open>AList.delete\<close>, a lookup
  is \<open>map_of\<close>. The digest function \<open>crypto.Keccak256Hash\<close> is a parameter of
  \<open>proofMap\<close>: every statement below holds for every digest function. The index of a
  proof element is a natural number (Go's \<open>int\<close> cannot overflow here, the index is
  bounded by the length of the proof).
\<close>

record rawProofElement =
  index :: nat
  val :: bytes

type_synonym proofs = "(bytes \<times> node) list"
type_synonym usedmap = "(bytes \<times> rawProofElement) list"

fun proofMapLoop ::
  "(bytes \<Rightarrow> bytes) \<Rightarrow> nat \<Rightarrow> bytes list \<Rightarrow> proofs \<Rightarrow> usedmap \<Rightarrow> error + (proofs \<times> usedmap)" where
  "proofMapLoop Keccak256Hash i [] res raw = Inr (res, raw)"
| "proofMapLoop Keccak256Hash i (proofB # rest) res raw =
     (let hash = Keccak256Hash proofB in
      case decodeNode proofB of
        Inl e \<Rightarrow> Inl e
      | Inr n \<Rightarrow>
          proofMapLoop Keccak256Hash (Suc i) rest
            (AList.update hash n res)
            (AList.update hash \<lparr>index = i, val = proofB\<rparr> raw))"

definition proofMap :: "(bytes \<Rightarrow> bytes) \<Rightarrow> bytes list \<Rightarrow> error + (proofs \<times> usedmap)" where
  "proofMap Keccak256Hash prf = proofMapLoop Keccak256Hash 0 prf [] []"

subsection \<open>The verifier\<close>

text \<open>
  \<open>common.BytesToHash\<close> (not among the sources; modelled from its contract): a slice
  longer than 32 bytes is cropped from the left, a shorter one is padded with zeros on
  the left. On a 32-byte slice it is the identity.
\<close>

definition BytesToHash :: "bytes \<Rightarrow> bytes" where
  "BytesToHash b = (let b' = drop (length b - 32) b in replicate (32 - length b') 0 @ b')"

text \<open>
  The state of \<open>verifyProof\<close>'s loop: the current node, the remaining key, the counter
  \<open>nextIndex\<close> and the map \<open>used\<close>, from which the loop deletes. \<open>verifyStep\<close> is one
  iteration of \<open>for { switch nt := node.(type) ... }\<close>: it returns (\<open>Inl\<close>) or goes on
  with the next state (\<open>Inr\<close>). A returned \<open>nil\<close> slice is \<open>None\<close>.
\<close>

record vstate =
  node :: node
  key :: bytes
  nextIndex :: nat
  used :: usedmap

definition verifyStep :: "proofs \<Rightarrow> vstate \<Rightarrow> (error + bytes option) + vstate" where
  "verifyStep proofs s =
     (case node s of
        FullNode children \<Rightarrow>
          if length (key s) = 0 then Inl (Inl ErrFullNodeValue)
          else if unat (hd (key s)) \<ge> length children then Inl (Inl Panic)
          else let n = children ! unat (hd (key s)) in
            if n = NilNode then Inl (Inr None)
            else Inr (s\<lparr>node := n, key := tl (key s)\<rparr>)
      | ShortNode shortHex v \<Rightarrow>
          if length shortHex > length (key s) then Inl (Inl ErrShortHexTooLong)
          else if shortHex \<noteq> take (length shortHex) (key s) then Inl (Inr None)
          else Inr (s\<lparr>node := v, key := drop (length shortHex) (key s)\<rparr>)
      | HashNode hash \<Rightarrow>
          (let h = BytesToHash hash in
           case map_of proofs h of
             None \<Rightarrow> Inl (Inl ErrMissingHash)
           | Some n \<Rightarrow>
              (case map_of (used s) h of
                 None \<Rightarrow> Inl (Inl ErrMissingHash)
               | Some raw \<Rightarrow>
                   if nextIndex s \<noteq> index raw then Inl (Inl ErrOutOfOrder)
                   else Inr (s\<lparr>node := n, nextIndex := nextIndex s + 1,
                                used := AList.delete h (used s)\<rparr>)))
      | ValueNode v \<Rightarrow>
          if length (key s) \<noteq> 0 then Inl (Inl ErrValueKeyRemaining)
          else if used s \<noteq> [] then Inl (Inl ErrUnusedElements)
          else Inl (Inr (Some v))
      | _ \<Rightarrow> Inl (Inl ErrUnexpectedType))"

lemma size_nth_less: "i < length cs \<Longrightarrow> size (cs ! i) < Suc (size_list size cs)"
  by (induction cs arbitrary: i) (force simp: nth_Cons split: nat.splits)+

lemma length_delete_less:
  "map_of al k = Some v \<Longrightarrow> length (AList.delete k al) < length al"
  by (induction al) (auto simp: less_Suc_eq_le AList.delete_eq intro: le_trans[OF length_filter_le])

lemma verifyStep_decreases:
  assumes "verifyStep proofs s = Inr s'"
  shows "length (used s') < length (used s)
         \<or> (length (used s') = length (used s) \<and> size (node s') < size (node s))"
  using assms
  by (auto simp: verifyStep_def Let_def size_nth_less length_delete_less
           split: node.splits if_splits option.splits)

function verifyLoop :: "proofs \<Rightarrow> vstate \<Rightarrow> error + bytes option" where
  "verifyLoop proofs s =
     (case verifyStep proofs s of
        Inl r \<Rightarrow> r
      | Inr s' \<Rightarrow> verifyLoop proofs s')"
  by pat_completeness auto
termination
  by (relation "inv_image (measure id <*lex*> measure id)
                  (\<lambda>(proofs, s). (length (used s), size (node s)))")
     (auto dest: verifyStep_decreases)

declare verifyLoop.simps [simp del]

definition verifyProof :: "bytes \<Rightarrow> bytes \<Rightarrow> proofs \<Rightarrow> usedmap \<Rightarrow> error + bytes option" where
  "verifyProof root k proofs usd =
     verifyLoop proofs \<lparr>node = HashNode root, key = keybytesToHex k, nextIndex = 0, used = usd\<rparr>"

text \<open>
  Both cross-checkers start with \<open>proofMap\<close> followed by \<open>verifyProof\<close> and wrap the
  error of either; \<open>VerifyProof\<close> is that common part, the spec's
  \<open>VerifyProof(rootHash, key, proofEntries)\<close>.
\<close>

definition VerifyProof ::
  "(bytes \<Rightarrow> bytes) \<Rightarrow> bytes \<Rightarrow> bytes \<Rightarrow> bytes list \<Rightarrow> error + bytes option" where
  "VerifyProof Keccak256Hash root k prf =
     (case proofMap Keccak256Hash prf of
        Inl e \<Rightarrow> Inl (ErrProofMap e)
      | Inr (pm, usd) \<Rightarrow>
         (case verifyProof root k pm usd of
            Inl e \<Rightarrow> Inl (ErrVerifyProof e)
          | Inr v \<Rightarrow> Inr v))"

subsection \<open>Runs of the verifier's loop\<close>

text \<open>
  \<open>run proofs s tr s'\<close>: starting in state \<open>s\<close>, some iterations of the loop of
  \<open>verifyProof\<close> lead to state \<open>s'\<close>, and \<open>tr\<close> lists, in order, the hash and the
  original index of every proof element that these iterations resolve (the entry that
  \<open>delete(used, h)\<close> removes).
\<close>

inductive run :: "proofs \<Rightarrow> vstate \<Rightarrow> (bytes \<times> nat) list \<Rightarrow> vstate \<Rightarrow> bool"
  for proofs :: proofs where
  run_stop: "run proofs s [] s"
| run_resolve:
    "node s = HashNode hash \<Longrightarrow> map_of (used s) (BytesToHash hash) = Some raw \<Longrightarrow>
     verifyStep proofs s = Inr s' \<Longrightarrow> run proofs s' tr s'' \<Longrightarrow>
     run proofs s ((BytesToHash hash, index raw) # tr) s''"
| run_descend:
    "(\<forall>hash. node s \<noteq> HashNode hash) \<Longrightarrow>
     verifyStep proofs s = Inr s' \<Longrightarrow> run proofs s' tr s'' \<Longrightarrow>
     run proofs s tr s''"

code_pred run .

text \<open>
  \<open>withEntry he r s\<close> is the state \<open>s\<close> with one more entry in \<open>used\<close>, as \<open>proofMap\<close>
  builds it from a proof list with one more element.
\<close>

definition withEntry :: "bytes \<Rightarrow> rawProofElement \<Rightarrow> vstate \<Rightarrow> vstate" where
  "withEntry he r s = s\<lparr>used := used s @ [(he, r)]\<rparr>"

subsection \<open>The proof builder\<close>

text \<open>
  Modelled from the spec: \<open>DuoNode.childrenIdx\<close> is not among the sources. The spec: a
  two-way branch "stores the two occupied nibble indices and their two children"; the
  indices are the positions of the two lowest bits set in \<open>mask\<close>.
\<close>

definition childrenIdx :: "32 word \<Rightarrow> byte \<times> byte" where
  "childrenIdx m =
     (case filter (\<lambda>i. bit m i) [0..<16] of
        [] \<Rightarrow> (0, 0)
      | [a] \<Rightarrow> (of_nat a, 0)
      | a # b # _ \<Rightarrow> (of_nat a, of_nat b))"

text \<open>
  \<open>Prove\<close> takes the serializer \<open>hasher.hashChildren(n, 0)\<close> as a parameter: it is not
  among the sources. \<open>emit\<close> and \<open>decLevel\<close> are the two fragments that the cases
  \<open>*ShortNode\<close>, \<open>*DuoNode\<close> and \<open>*FullNode\<close> share: appending the node's encoding when
  \<open>fromLevel == 0\<close>, and \<open>if fromLevel > 0 { fromLevel-- }\<close>. \<open>ProveLoop\<close> is the loop
  \<open>for len(key) > 0 && tn != nil\<close>. Reading \<open>nKey[len(nKey)-1]\<close> of an empty \<open>nKey\<close>
  and the type switch's \<open>default\<close> are panics.
\<close>

definition emit :: "(node \<Rightarrow> error + bytes) \<Rightarrow> int \<Rightarrow> node \<Rightarrow> bytes list \<Rightarrow> error + bytes list" where
  "emit hashChildren fromLevel n prf =
     (if fromLevel = 0 then
        (case hashChildren n of
           Inr rlp \<Rightarrow> Inr (prf @ [rlp])
         | Inl err \<Rightarrow> Inl err)
      else Inr prf)"

definition decLevel :: "int \<Rightarrow> int" where
  "decLevel fromLevel = (if fromLevel > 0 then fromLevel - 1 else fromLevel)"

function ProveLoop ::
  "(node \<Rightarrow> error + bytes) \<Rightarrow> bool \<Rightarrow> bytes \<Rightarrow> node \<Rightarrow> int \<Rightarrow> bytes list \<Rightarrow> error + bytes list" where
  "ProveLoop hashChildren storage k tn fromLevel prf =
     (if \<not> (length k > 0 \<and> tn \<noteq> NilNode) then Inr prf
      else case tn of
        ShortNode nKey0 v \<Rightarrow>
          (case emit hashChildren fromLevel tn prf of
             Inl err \<Rightarrow> Inl err
           | Inr prf' \<Rightarrow>
               if nKey0 = [] then Inl Panic
               else let nKey = (if last nKey0 = 16 then butlast nKey0 else nKey0) in
                 if length k < length nKey \<or> nKey \<noteq> take (length nKey) k
                 then ProveLoop hashChildren storage k NilNode (decLevel fromLevel) prf'
                 else ProveLoop hashChildren storage (drop (length nKey) k) v
                        (decLevel fromLevel) prf')
      | DuoNode m child1 child2 \<Rightarrow>
          (case emit hashChildren fromLevel tn prf of
             Inl err \<Rightarrow> Inl err
           | Inr prf' \<Rightarrow>
               (case childrenIdx m of
                  (i1, i2) \<Rightarrow>
                    if hd k = i1
                    then ProveLoop hashChildren storage (tl k) child1 (decLevel fromLevel) prf'
                    else if hd k = i2
                    then ProveLoop hashChildren storage (tl k) child2 (decLevel fromLevel) prf'
                    else ProveLoop hashChildren storage k NilNode (decLevel fromLevel) prf'))
      | FullNode children \<Rightarrow>
          (case emit hashChildren fromLevel tn prf of
             Inl err \<Rightarrow> Inl err
           | Inr prf' \<Rightarrow>
               if unat (hd k) \<ge> length children then Inl Panic
               else ProveLoop hashChildren storage (tl k) (children ! unat (hd k))
                      (decLevel fromLevel) prf')
      | AccountNode acc storageNode \<Rightarrow>
          if storage then ProveLoop hashChildren storage k storageNode fromLevel prf
          else ProveLoop hashChildren storage k NilNode fromLevel prf
      | ValueNode v \<Rightarrow> ProveLoop hashChildren storage k NilNode fromLevel prf
      | HashNode h \<Rightarrow> Inl ErrUnexpectedHashNode
      | NilNode \<Rightarrow> Inl Panic)"
  by pat_completeness auto
termination
  by (relation "measure (\<lambda>(hashChildren, storage, k, tn, fromLevel, prf).
                  if tn = NilNode then 0 else Suc (size tn))")
     (auto simp: size_nth_less)

declare ProveLoop.simps [simp del]

definition Prove ::
  "(node \<Rightarrow> error + bytes) \<Rightarrow> node \<Rightarrow> bytes \<Rightarrow> int \<Rightarrow> bool \<Rightarrow> error + bytes list" where
  "Prove hashChildren RootNode k fromLevel storage =
     ProveLoop hashChildren storage (butlast (keybytesToHex k)) RootNode fromLevel []"

subsection \<open>The RLP encoder used by the cross-checkers\<close>

text \<open>
  Modelled from the spec: \<open>rlp.EncodeToBytes\<close> is not among the sources. The spec:
  "re-encode the 4-tuple (nonce, balance-as-minimal-big-endian-bytes, storage-root,
  code-root) using the same canonical list encoding used by the trie's value slots".
  \<open>minimal_be\<close> is \<open>big.Int.Bytes()\<close> of a non-negative number.
\<close>

function minimal_be :: "nat \<Rightarrow> bytes" where
  "minimal_be n = (if n = 0 then [] else minimal_be (n div 256) @ [of_nat (n mod 256)])"
  by pat_completeness auto
termination
  by (relation "measure id") auto

declare minimal_be.simps [simp del]

definition encodeHeader :: "byte \<Rightarrow> nat \<Rightarrow> bytes" where
  "encodeHeader base n =
     (if n < 56 then [base + of_nat n]
      else (base + 55 + of_nat (length (minimal_be n))) # minimal_be n)"

definition encodeString :: "bytes \<Rightarrow> bytes" where
  "encodeString b =
     (if length b = 1 \<and> hd b < 0x80 then b else encodeHeader 0x80 (length b) @ b)"

definition encodeUint64 :: "64 word \<Rightarrow> bytes" where
  "encodeUint64 n = encodeString (minimal_be (unat n))"

definition encodeList :: "bytes list \<Rightarrow> bytes" where
  "encodeList items = encodeHeader 0xC0 (length (concat items)) @ concat items"

subsection \<open>The serializer\<close>

text \<open>
  Modelled from the spec: \<open>hasher.hashChildren\<close> is not among the sources. The spec:
  \<open>Prove\<close> serializes each visited node "recomputing its child-hashes encoding as needed",
  the two directions of the codec "must be exact inverses", and a child is embedded only
  when its encoding is shorter than the 32 bytes of a digest, otherwise it is referenced
  by its digest. \<open>nodeRLP\<close> is the encoding that \<open>decodeNode\<close> reads back: the list of
  compact key and value or child reference for a short node, the list of 17 items for a
  full node; a two-way branch is encoded as the full node with its two children, and an
  account as the value string that holds the list of nonce, balance, storage root and
  code hash (the list that \<open>VerifyAccountProofByHash\<close> compares a proven value with).
  \<open>hexToCompact\<close> is the inverse of \<open>CompactToKeybytes\<close> followed by \<open>ToHex\<close>.
\<close>

fun packNibbles :: "bytes \<Rightarrow> bytes" where
  "packNibbles (a # b # r) = (push_bit 4 a OR b) # packNibbles r"
| "packNibbles _ = []"

definition hexToCompact :: "bytes \<Rightarrow> bytes" where
  "hexToCompact hex =
     (let t = (hex \<noteq> [] \<and> last hex = 16);
          h = (if t then butlast hex else hex);
          flag = (if t then 0x20 else 0)
      in if odd (length h) then (flag OR 0x10 OR hd h) # packNibbles (tl h)
         else flag # packNibbles h)"

definition reference :: "(bytes \<Rightarrow> bytes) \<Rightarrow> node \<Rightarrow> bytes \<Rightarrow> bytes" where
  "reference Keccak256Hash n rlp =
     (case n of
        ShortNode _ _ \<Rightarrow> if length rlp < 32 then rlp else encodeString (Keccak256Hash rlp)
      | FullNode _ \<Rightarrow> if length rlp < 32 then rlp else encodeString (Keccak256Hash rlp)
      | DuoNode _ _ _ \<Rightarrow> if length rlp < 32 then rlp else encodeString (Keccak256Hash rlp)
      | _ \<Rightarrow> rlp)"

fun nodeRLP :: "(bytes \<Rightarrow> bytes) \<Rightarrow> node \<Rightarrow> bytes" where
  "nodeRLP H NilNode = [0x80]"
| "nodeRLP H (HashNode h) = encodeString h"
| "nodeRLP H (ValueNode b) = encodeString b"
| "nodeRLP H (AccountNode a st) =
     encodeString (encodeList [encodeUint64 (acc_Nonce a), encodeString (minimal_be (acc_Balance a)),
                               encodeString (acc_Root a), encodeString (acc_CodeHash a)])"
| "nodeRLP H (ShortNode k v) =
     encodeList [encodeString (hexToCompact k), reference H v (nodeRLP H v)]"
| "nodeRLP H (FullNode cs) = encodeList (map (\<lambda>c. reference H c (nodeRLP H c)) cs)"
| "nodeRLP H (DuoNode m c1 c2) =
     (case childrenIdx m of
        (i1, i2) \<Rightarrow>
          encodeList (map (\<lambda>i. if i = unat i1 then reference H c1 (nodeRLP H c1)
                               else if i = unat i2 then reference H c2 (nodeRLP H c2)
                               else [0x80]) [0..<17]))"

definition hashChildren :: "(bytes \<Rightarrow> bytes) \<Rightarrow> node \<Rightarrow> error + bytes" where
  "hashChildren H n = Inr (nodeRLP H n)"

subsection \<open>The record cross-checkers\<close>

text \<open>
  \<open>accounts.AccProofResult\<close> and \<open>accounts.StorProofResult\<close> with the fields that the
  code reads; a \<open>*hexutil.Big\<close> is an integer, a \<open>common.Hash\<close> a byte list (of 32
  bytes). \<open>EmptyRoot\<close> is the root hash of the empty trie, the Keccak-256 digest of the
  byte \<open>0x80\<close>; \<open>zeroHash\<close> is \<open>common.Hash{}\<close>.
\<close>

record StorProofResult =
  Key :: string
  Value :: int
  Proof :: "bytes list"

record AccProofResult =
  Address :: bytes
  AccountProof :: "bytes list"
  Balance :: int
  CodeHash :: bytes
  Nonce :: "64 word"
  StorageHash :: bytes
  StorageProof :: "StorProofResult list"

definition zeroHash :: bytes where
  "zeroHash = replicate 32 0"

definition EmptyRoot :: bytes where
  "EmptyRoot =
     [0x56, 0xe8, 0x1f, 0x17, 0x1b, 0xcc, 0x55, 0xa6, 0xff, 0x83, 0x45, 0xe6, 0x92, 0xc0, 0xf8, 0x6e,
      0x5b, 0x48, 0xe0, 0x1b, 0x99, 0x6c, 0xad, 0xc0, 0x01, 0x62, 0x2f, 0xb5, 0xe3, 0x63, 0xb4, 0x21]"

definition VerifyAccountProofByHash ::
  "(bytes \<Rightarrow> bytes) \<Rightarrow> bytes \<Rightarrow> bytes \<Rightarrow> AccProofResult \<Rightarrow> error option" where
  "VerifyAccountProofByHash Keccak256Hash stateRoot accountKey prf =
     (case proofMap Keccak256Hash (AccountProof prf) of
        Inl err \<Rightarrow> Some (ErrProofMap err)
      | Inr (pm, usd) \<Rightarrow>
         (case verifyProof stateRoot accountKey pm usd of
            Inl err \<Rightarrow> Some (ErrVerifyProof err)
          | Inr None \<Rightarrow>
              if Nonce prf \<noteq> 0 then Some ErrAbsentNonce
              else if sgn (Balance prf) \<noteq> 0 then Some ErrAbsentBalance
              else if StorageHash prf \<noteq> zeroHash then Some ErrAbsentStorageHash
              else if CodeHash prf \<noteq> zeroHash then Some ErrAbsentCodeHash
              else None
          | Inr (Some v) \<Rightarrow>
              (let expected = encodeList
                     [encodeUint64 (Nonce prf),
                      encodeString (minimal_be (nat \<bar>Balance prf\<bar>)),
                      encodeString (StorageHash prf),
                      encodeString (CodeHash prf)]
               in if expected \<noteq> v then Some ErrAccountMismatch else None)))"

definition VerifyStorageProofByHash ::
  "(bytes \<Rightarrow> bytes) \<Rightarrow> bytes \<Rightarrow> bytes \<Rightarrow> StorProofResult \<Rightarrow> error option" where
  "VerifyStorageProofByHash Keccak256Hash storageRoot keyHash prf =
     (if storageRoot = EmptyRoot \<or> storageRoot = zeroHash then
        (if sgn (Value prf) \<noteq> 0 then Some ErrEmptyRootNonZero
         else if storageRoot = EmptyRoot then
           (if \<exists>p \<in> set (Proof prf). length p \<noteq> 1 \<or> hd p \<noteq> 0x80
            then Some ErrEmptyRootProof else None)
         else
           (if \<exists>p \<in> set (Proof prf). length p \<noteq> 0
            then Some ErrZeroRootProof else None))
      else
        (case proofMap Keccak256Hash (Proof prf) of
           Inl err \<Rightarrow> Some (ErrProofMap err)
         | Inr (pm, usd) \<Rightarrow>
            (case verifyProof storageRoot keyHash pm usd of
               Inl err \<Rightarrow> Some (ErrVerifyProof err)
             | Inr v \<Rightarrow>
                 (let expected =
                        (case v of
                           Some _ \<Rightarrow> Some (encodeString (minimal_be (nat \<bar>Value prf\<bar>)))
                         | None \<Rightarrow> None)
                  in if expected \<noteq> v then Some ErrStorageMismatch else None))))"

subsection \<open>A digest for the examples\<close>

text \<open>
  Keccak-256 is not evaluated in this development. The theorems about \<open>proofMap\<close> and
  the functions built on it hold for every digest function; the examples instantiate it
  with \<open>digest32\<close>, the first 32 bytes of the input padded with zeros, which tells apart
  the byte strings of the examples.
\<close>

definition digest32 :: "bytes \<Rightarrow> bytes" where
  "digest32 b = take 32 (b @ replicate 32 0)"

text \<open>
  \<open>branchProof\<close> is the encoding of a full node with hash references at the nibbles 1
  and 2 and no other child: a one-element proof that every key starting with another
  nibble is absent under the root \<open>digest32 branchProof\<close>.
\<close>

definition branchProof :: bytes where
  "branchProof = [0xf8, 0x51, 0x80] @ (0xa0 # replicate 32 0x11) @ (0xa0 # replicate 32 0x22)
                 @ replicate 14 0x80"

text \<open>
  \<open>leafProof\<close> is the encoding of a leaf that binds the 32-byte key \<open>33 33 ... 33\<close> to
  the value \<open>"a"\<close>: a one-element proof of that binding under the root
  \<open>digest32 leafProof\<close>.
\<close>

definition leafProof :: bytes where
  "leafProof = 0xe3 # 0xa1 # 0x20 # replicate 32 0x33 @ [0x61]"

text \<open>
  \<open>smallTrie\<close> binds the one-byte keys \<open>01\<close>, \<open>11\<close> and \<open>21\<close> to the values \<open>"a"\<close>,
  \<open>"b"\<close> and \<open>"c"\<close>: a full node with three leaves. \<open>smallTrieRLP\<close> and
  \<open>smallLeafRLP\<close> are the encodings of the trie's root and of its first leaf; each
  leaf takes 3 bytes and stands embedded in the root's 24 bytes.
\<close>

definition smallLeaf :: "byte \<Rightarrow> node" where
  "smallLeaf v = ShortNode [1, 16] (ValueNode [v])"

definition smallTrie :: node where
  "smallTrie = FullNode ([smallLeaf 0x61, smallLeaf 0x62, smallLeaf 0x63] @ replicate 14 NilNode)"

definition smallTrieRLP :: bytes where
  "smallTrieRLP = [0xd7, 0xc2, 0x31, 0x61, 0xc2, 0x31, 0x62, 0xc2, 0x31, 0x63] @ replicate 14 0x80"

definition smallLeafRLP :: bytes where
  "smallLeafRLP = [0xc2, 0x31, 0x61]"

section \<open>Properties\<close>

lemmas rlp_eval = SplitList_def SplitString_def Split_def readKind_def readSize_def
  CountValues.simps CompactToKeybytes_def ToHex_def nibbles_of_def
  decodeNode.simps decodeShort.simps decodeFull.simps decodeChildren.simps decodeRef.simps

subsection \<open>The builder on an empty key\<close>

text \<open>
  C6 claims that \<open>Prove\<close> on an empty key, with \<open>fromLevel = 0\<close> and a non-nil root,
  returns a proof holding at least the serialized root node. The code removes the
  terminator from the key before the loop, so an empty key never enters the loop
  \<open>for len(key) > 0 && tn != nil\<close>: for every root node, every serializer and every
  \<open>fromLevel\<close> the proof returned is empty.
\<close>

theorem Prove_empty_key:
  "Prove hc RootNode [] fromLevel storage = Inr []"
  by (simp add: Prove_def keybytesToHex_def nibbles_of_def ProveLoop.simps)

subsection \<open>The decoder\<close>

text \<open>
  C8: when the child reference handed to \<open>decodeRef\<close> is an embedded list, a serialized
  size (\<open>len(buf) - len(rest)\<close>, header and content) of 32 bytes or more is the error
  "embedded nodes must be less than hash size", and a successful decode implies a size
  strictly below 32.
\<close>

theorem decodeRef_embedded_size:
  assumes "Split buf = Inr (KList, v, rest)"
  shows "(32 \<le> length buf - length rest \<longrightarrow> decodeRef buf = Inl ErrEmbeddedTooLarge)
       \<and> (\<forall>r. decodeRef buf = Inr r \<longrightarrow> length buf - length rest < 32)"
  using assms by (auto simp: decodeRef.simps split: sum.splits)

theorem decodeRef_embedded_size_witness:
  "Split (0xE0 # replicate 32 0) = Inr (KList, replicate 32 0, [])
   \<and> decodeRef (0xE0 # replicate 32 0) = Inl ErrEmbeddedTooLarge
   \<and> Split [0xC2, 0x31, 0x61] = Inr (KList, [0x31, 0x61], [])
   \<and> decodeRef [0xC2, 0x31, 0x61] = Inr (ShortNode [1, 16] (ValueNode [0x61]), [])"
proof -
  have a: "Split (0xE0 # replicate 32 0) = Inr (KList, replicate 32 0, [])"
    by (simp add: Split_def readKind_def)
  have b: "Split [0xC2, 0x31, 0x61] = Inr (KList, [0x31, 0x61], [])"
    by (simp add: Split_def readKind_def)
  have c: "decodeRef [0xC2, 0x31, 0x61] = Inr (ShortNode [1, 16] (ValueNode [0x61]), [])"
    by (simp add: rlp_eval)
  from decodeRef_embedded_size[OF a] decodeRef_embedded_size[OF b] a b c
  show ?thesis by simp
qed

text \<open>
  C7 claims that a 2-item node with a non-terminating path-key and a literal string as
  second item never decodes, the empty string included. The list \<open>[0x00, ""]\<close>, encoded
  \<open>C2 00 80\<close>, decodes: \<open>decodeRef\<close> maps the empty string to the nil child.
\<close>

theorem decodeNode_nil_child_counterexample:
  "SplitList [0xC2, 0x00, 0x80] = Inr ([0x00, 0x80], [])
   \<and> CountValues [0x00, 0x80] = Inr 2
   \<and> SplitString [0x00, 0x80] = Inr ([0x00], [0x80])
   \<and> \<not> Terminating (CompactToKeybytes [0x00])
   \<and> Split [0x80] = Inr (KString, [], [])
   \<and> decodeNode [0xC2, 0x00, 0x80] = Inr (ShortNode [] NilNode)"
  by (simp add: rlp_eval)

text \<open>
  C7 as amended: a 2-item node with a non-terminating path-key whose second item is a
  literal string (a single byte or a string, not a list) of a length other than 32
  fails to decode with "invalid RLP string size" when the string is not empty, and
  decodes to a short node with a nil child when it is empty.
\<close>

theorem decodeNode_nonterminating_literal:
  assumes "SplitList encoded = Inr (elems, r)"
    and "CountValues elems = Inr 2"
    and "SplitString elems = Inr (kbuf, rest)"
    and "\<not> Terminating (CompactToKeybytes kbuf)"
    and "Split rest = Inr (kind, v, rest')"
    and "kind \<noteq> KList"
    and "length v \<noteq> 32"
  shows "(length v \<noteq> 0 \<longrightarrow> decodeNode encoded = Inl (ErrInvalidStringSize (length v)))
       \<and> (kind = KString \<and> length v = 0 \<longrightarrow>
            decodeNode encoded = Inr (ShortNode (ToHex (CompactToKeybytes kbuf)) NilNode))"
proof -
  have ne: "length encoded \<noteq> 0"
    using assms(1) by (auto simp: SplitList_def Split_def readKind_def)
  show ?thesis
    using assms ne
    by (auto simp: decodeNode.simps decodeShort.simps decodeRef.simps Let_def)
qed

theorem decodeNode_nonterminating_literal_witness:
  "SplitList [0xC2, 0x00, 0x61] = Inr ([0x00, 0x61], [])
   \<and> CountValues [0x00, 0x61] = Inr 2
   \<and> SplitString [0x00, 0x61] = Inr ([0x00], [0x61])
   \<and> \<not> Terminating (CompactToKeybytes [0x00])
   \<and> Split [0x61] = Inr (KByte, [0x61], [])
   \<and> decodeNode [0xC2, 0x00, 0x61] = Inl (ErrInvalidStringSize 1)
   \<and> SplitList [0xC2, 0x00, 0x80] = Inr ([0x00, 0x80], [])
   \<and> CountValues [0x00, 0x80] = Inr 2
   \<and> SplitString [0x00, 0x80] = Inr ([0x00], [0x80])
   \<and> Split [0x80] = Inr (KString, [], [])
   \<and> decodeNode [0xC2, 0x00, 0x80] = Inr (ShortNode [] NilNode)"
proof -
  have a: "SplitList [0xC2, 0x00, 0x61] = Inr ([0x00, 0x61], [])" by (simp add: rlp_eval)
  have b: "CountValues [0x00, 0x61] = Inr 2" by (simp add: rlp_eval)
  have c: "SplitString [0x00, 0x61] = Inr ([0x00], [0x61])" by (simp add: rlp_eval)
  have d: "\<not> Terminating (CompactToKeybytes [0x00])" by (simp add: rlp_eval)
  have e: "Split [0x61] = Inr (KByte, [0x61], [])" by (simp add: rlp_eval)
  have a': "SplitList [0xC2, 0x00, 0x80] = Inr ([0x00, 0x80], [])" by (simp add: rlp_eval)
  have b': "CountValues [0x00, 0x80] = Inr 2" by (simp add: rlp_eval)
  have c': "SplitString [0x00, 0x80] = Inr ([0x00], [0x80])" by (simp add: rlp_eval)
  have e': "Split [0x80] = Inr (KString, [], [])" by (simp add: rlp_eval)
  have t: "ToHex (CompactToKeybytes [0x00]) = []" by (simp add: rlp_eval)
  from decodeNode_nonterminating_literal[OF a b c d e]
       decodeNode_nonterminating_literal[OF a' b' c' d e'] a b c d e a' b' c' e' t
  show ?thesis by simp
qed

subsection \<open>The verifier's traversal\<close>

lemma verifyStep_HashNode:
  assumes "node s = HashNode hash" and "verifyStep proofs s = Inr s'"
  shows "\<exists>n raw. map_of proofs (BytesToHash hash) = Some n
           \<and> map_of (used s) (BytesToHash hash) = Some raw
           \<and> index raw = nextIndex s
           \<and> s' = s\<lparr>node := n, nextIndex := nextIndex s + 1,
                      used := AList.delete (BytesToHash hash) (used s)\<rparr>"
  using assms by (auto simp: verifyStep_def Let_def split: option.splits if_splits)

lemma verifyStep_other:
  assumes "\<forall>hash. node s \<noteq> HashNode hash" and "verifyStep proofs s = Inr s'"
  shows "nextIndex s' = nextIndex s \<and> used s' = used s"
  using assms by (auto simp: verifyStep_def Let_def split: node.splits if_splits)

lemma run_verifyLoop: "run proofs s tr s' \<Longrightarrow> verifyLoop proofs s = verifyLoop proofs s'"
  by (induction rule: run.induct) (simp_all add: verifyLoop.simps[of _ s for s])

lemma run_trace:
  assumes "run proofs s tr s'"
  shows "map snd tr = [nextIndex s ..< nextIndex s + length tr]
       \<and> nextIndex s' = nextIndex s + length tr
       \<and> distinct (map fst tr)
       \<and> (\<forall>h \<in> fst ` set tr. map_of (used s) h \<noteq> None \<and> map_of (used s') h = None)
       \<and> (\<forall>h. map_of (used s) h = None \<longrightarrow> map_of (used s') h = None)"
  using assms
proof (induction rule: run.induct)
  case (run_stop s)
  show ?case by simp
next
  case (run_resolve s hash raw s' tr s'')
  let ?h = "BytesToHash hash"
  from verifyStep_HashNode[OF run_resolve(1,3)] run_resolve(2)
  have idx: "index raw = nextIndex s"
    and nxt: "nextIndex s' = nextIndex s + 1"
    and usd: "used s' = AList.delete ?h (used s)"
    by auto
  have gone: "map_of (used s') ?h = None"
    by (simp add: usd delete_conv')
  have keep: "\<And>h. map_of (used s') h \<noteq> None \<Longrightarrow> map_of (used s) h \<noteq> None"
    by (simp add: usd delete_conv' split: if_splits)
  from run_resolve.IH have
    ih1: "map snd tr = [nextIndex s' ..< nextIndex s' + length tr]" and
    ih2: "nextIndex s'' = nextIndex s' + length tr" and
    ih3: "distinct (map fst tr)" and
    ih4: "\<forall>h \<in> fst ` set tr. map_of (used s') h \<noteq> None \<and> map_of (used s'') h = None" and
    ih5: "\<forall>h. map_of (used s') h = None \<longrightarrow> map_of (used s'') h = None"
    by auto
  have notin: "?h \<notin> fst ` set tr" using ih4 gone by blast
  have a: "map snd ((?h, index raw) # tr) = [nextIndex s ..< nextIndex s + length ((?h, index raw) # tr)]"
  proof -
    have "[nextIndex s ..< nextIndex s + Suc (length tr)]
        = nextIndex s # [Suc (nextIndex s) ..< nextIndex s + Suc (length tr)]"
      by (rule upt_conv_Cons) simp
    with ih1 show ?thesis by (simp add: idx nxt del: upt_Suc)
  qed
  have b: "nextIndex s'' = nextIndex s + length ((?h, index raw) # tr)"
    using ih2 nxt by simp
  have c: "distinct (map fst ((?h, index raw) # tr))"
    using ih3 notin by simp
  have d: "\<forall>h \<in> fst ` set ((?h, index raw) # tr). map_of (used s) h \<noteq> None \<and> map_of (used s'') h = None"
    using ih4 ih5 gone keep run_resolve(2) by auto
  have e: "\<forall>h. map_of (used s) h = None \<longrightarrow> map_of (used s'') h = None"
    using ih5 keep by blast
  from a b c d e show ?case by blast
next
  case (run_descend s s' tr s'')
  from verifyStep_other[OF run_descend(1,2)] run_descend.IH
  show ?case by simp
qed

text \<open>
  C2: the counter \<open>nextIndex\<close> starts at 0; the proof elements that a traversal
  resolves have the original indices 0, 1, 2, ... in this order (strictly increasing),
  no element is resolved twice, every resolved element is gone from \<open>used\<close>, and a
  traversal that reaches a hash reference whose element has another index than
  \<open>nextIndex\<close> makes \<open>verifyProof\<close> return the out-of-order error.
\<close>

theorem verifyProof_consumes_in_order:
  assumes "run proofs \<lparr>node = HashNode root, key = keybytesToHex k, nextIndex = 0, used = usd\<rparr> tr s"
  shows "map snd tr = [0 ..< length tr]
       \<and> distinct (map fst tr)
       \<and> nextIndex s = length tr
       \<and> (\<forall>h \<in> fst ` set tr. map_of (used s) h = None)
       \<and> (\<forall>hash n raw. node s = HashNode hash
             \<and> map_of proofs (BytesToHash hash) = Some n
             \<and> map_of (used s) (BytesToHash hash) = Some raw
             \<and> index raw \<noteq> nextIndex s
            \<longrightarrow> verifyProof root k proofs usd = Inl ErrOutOfOrder)"
proof -
  have ooo: "verifyProof root k proofs usd = Inl ErrOutOfOrder"
    if "node s = HashNode hash" "map_of proofs (BytesToHash hash) = Some n"
       "map_of (used s) (BytesToHash hash) = Some raw" "index raw \<noteq> nextIndex s"
    for hash n raw
  proof -
    have "verifyStep proofs s = Inl (Inl ErrOutOfOrder)"
      using that by (auto simp: verifyStep_def)
    then have "verifyLoop proofs s = Inl ErrOutOfOrder"
      by (simp add: verifyLoop.simps[of proofs s])
    then show ?thesis
      using run_verifyLoop[OF assms] by (simp add: verifyProof_def)
  qed
  from run_trace[OF assms] ooo show ?thesis by auto
qed

theorem verifyProof_consumes_in_order_witness:
  "run [(zeroHash, FullNode (HashNode (replicate 32 1) # replicate 16 NilNode)),
        (replicate 32 1, ShortNode [0, 16] (ValueNode [0x61]))]
       \<lparr>node = HashNode zeroHash, key = keybytesToHex [0], nextIndex = 0,
        used = [(zeroHash, \<lparr>index = 0, val = []\<rparr>), (replicate 32 1, \<lparr>index = 1, val = []\<rparr>)]\<rparr>
       [(zeroHash, 0), (replicate 32 1, 1)]
       \<lparr>node = ShortNode [0, 16] (ValueNode [0x61]), key = [0, 16], nextIndex = 2, used = []\<rparr>
   \<and> map snd [(zeroHash, 0::nat), (replicate 32 (1::byte), 1)] = [0 ..< 2]
   \<and> distinct (map fst [(zeroHash, 0::nat), (replicate 32 (1::byte), 1)])
   \<and> verifyProof zeroHash [0]
        [(zeroHash, FullNode (HashNode (replicate 32 1) # replicate 16 NilNode)),
         (replicate 32 1, ShortNode [0, 16] (ValueNode [0x61]))]
        [(zeroHash, \<lparr>index = 1, val = []\<rparr>), (replicate 32 1, \<lparr>index = 0, val = []\<rparr>)]
       = Inl ErrOutOfOrder"
proof -
  let ?h1 = "replicate 32 (1::byte)"
  let ?leaf = "ShortNode [0, 16] (ValueNode [0x61])"
  let ?full = "FullNode (HashNode ?h1 # replicate 16 NilNode)"
  let ?P = "[(zeroHash, ?full), (?h1, ?leaf)]"
  let ?u0 = "[(zeroHash, \<lparr>index = 0, val = []\<rparr>), (?h1, \<lparr>index = 1, val = []\<rparr>)]"
  let ?u1 = "[(?h1, \<lparr>index = 1, val = []\<rparr>)]"
  let ?s0 = "\<lparr>node = HashNode zeroHash, key = keybytesToHex [0], nextIndex = 0, used = ?u0\<rparr>"
  let ?s1 = "\<lparr>node = ?full, key = [0, 0, 16], nextIndex = 1, used = ?u1\<rparr>"
  let ?s2 = "\<lparr>node = HashNode ?h1, key = [0, 16], nextIndex = 1, used = ?u1\<rparr>"
  let ?s3 = "\<lparr>node = ?leaf, key = [0, 16], nextIndex = 2, used = []\<rparr>"
  have h0: "BytesToHash zeroHash = zeroHash"
    by (simp add: BytesToHash_def zeroHash_def)
  have h1: "BytesToHash ?h1 = ?h1"
    by (simp add: BytesToHash_def)
  have ne: "zeroHash \<noteq> ?h1"
    by (simp add: zeroHash_def)
  have ne': "?h1 \<noteq> zeroHash"
    using ne by (rule not_sym)
  have st0: "verifyStep ?P ?s0 = Inr ?s1"
    by (simp add: verifyStep_def h0 ne ne' keybytesToHex_def nibbles_of_def)
  have st1: "verifyStep ?P ?s1 = Inr ?s2"
    by (simp add: verifyStep_def)
  have st2: "verifyStep ?P ?s2 = Inr ?s3"
    by (simp add: verifyStep_def h1 ne')
  have r2: "run ?P ?s2 [(BytesToHash ?h1, index \<lparr>index = 1, val = []\<rparr>)] ?s3"
    by (rule run_resolve[OF _ _ st2 run_stop]) (simp_all add: h1)
  have r1: "run ?P ?s1 [(BytesToHash ?h1, index \<lparr>index = 1, val = []\<rparr>)] ?s3"
    by (rule run_descend[OF _ st1 r2]) simp
  have "run ?P ?s0 ((BytesToHash zeroHash, index \<lparr>index = 0, val = []\<rparr>)
          # [(BytesToHash ?h1, index \<lparr>index = 1, val = []\<rparr>)]) ?s3"
    by (rule run_resolve[OF _ _ st0 r1]) (simp_all add: h0)
  then have r0: "run ?P ?s0 [(zeroHash, 0), (?h1, 1)] ?s3"
    by (simp add: h0 h1)
  let ?v0 = "[(zeroHash, \<lparr>index = 1, val = []\<rparr>), (?h1, \<lparr>index = 0, val = []\<rparr>)]"
  let ?t0 = "\<lparr>node = HashNode zeroHash, key = keybytesToHex [0], nextIndex = 0, used = ?v0\<rparr>"
  have q0: "run ?P ?t0 [] ?t0"
    by (rule run_stop)
  have ooo: "verifyProof zeroHash [0] ?P ?v0 = Inl ErrOutOfOrder"
    using verifyProof_consumes_in_order[OF q0] by (simp add: h0)
  from verifyProof_consumes_in_order[OF r0] r0 ooo show ?thesis
    by (simp add: numeral_2_eq_2)
qed

text \<open>
  C9: a traversal that reaches a full node with no key left makes \<open>verifyProof\<close>
  return the error "full nodes should not have values", neither a value nor absence.
\<close>

theorem verifyProof_full_node_empty_key:
  assumes "run proofs \<lparr>node = HashNode root, key = keybytesToHex k, nextIndex = 0, used = usd\<rparr> tr s"
    and "node s = FullNode children" and "key s = []"
  shows "verifyProof root k proofs usd = Inl ErrFullNodeValue"
proof -
  have "verifyStep proofs s = Inl (Inl ErrFullNodeValue)"
    using assms(2,3) by (simp add: verifyStep_def)
  then have "verifyLoop proofs s = Inl ErrFullNodeValue"
    by (simp add: verifyLoop.simps[of proofs s])
  then show ?thesis
    using run_verifyLoop[OF assms(1)] by (simp add: verifyProof_def)
qed

theorem verifyProof_full_node_empty_key_witness:
  "run [(zeroHash, ShortNode [16] (FullNode (replicate 17 NilNode)))]
       \<lparr>node = HashNode zeroHash, key = keybytesToHex [], nextIndex = 0,
        used = [(zeroHash, \<lparr>index = 0, val = []\<rparr>)]\<rparr>
       [(zeroHash, 0)]
       \<lparr>node = FullNode (replicate 17 NilNode), key = [], nextIndex = 1, used = []\<rparr>
   \<and> verifyProof zeroHash [] [(zeroHash, ShortNode [16] (FullNode (replicate 17 NilNode)))]
         [(zeroHash, \<lparr>index = 0, val = []\<rparr>)] = Inl ErrFullNodeValue"
proof -
  let ?P = "[(zeroHash, ShortNode [16] (FullNode (replicate 17 NilNode)))]"
  let ?s0 = "\<lparr>node = HashNode zeroHash, key = keybytesToHex [], nextIndex = 0,
              used = [(zeroHash, \<lparr>index = 0, val = []\<rparr>)]\<rparr>"
  let ?s1 = "\<lparr>node = ShortNode [16] (FullNode (replicate 17 NilNode)), key = [16],
              nextIndex = 1, used = []\<rparr>"
  let ?s2 = "\<lparr>node = FullNode (replicate 17 NilNode), key = [], nextIndex = 1, used = []\<rparr>"
  have h: "BytesToHash zeroHash = zeroHash"
    by (simp add: BytesToHash_def zeroHash_def)
  have st0: "verifyStep ?P ?s0 = Inr ?s1"
    by (simp add: verifyStep_def h keybytesToHex_def nibbles_of_def)
  have st1: "verifyStep ?P ?s1 = Inr ?s2"
    by (simp add: verifyStep_def)
  have r1: "run ?P ?s1 [] ?s2"
    by (rule run_descend[OF _ st1 run_stop]) simp
  have "run ?P ?s0 [(BytesToHash zeroHash, index \<lparr>index = 0, val = []\<rparr>)] ?s2"
    by (rule run_resolve[OF _ _ st0 r1]) (simp_all add: h)
  then have r0: "run ?P ?s0 [(zeroHash, 0)] ?s2"
    by (simp add: h)
  from verifyProof_full_node_empty_key[OF r0] r0 show ?thesis by simp
qed

subsection \<open>The proof maps and the cross-checkers\<close>

lemma proofMapLoop_decode_error:
  assumes "p \<in> set ps" and "decodeNode p = Inl e"
  shows "\<exists>e'. proofMapLoop H i ps res raw = Inl e'"
  using assms
  by (induction ps arbitrary: i res raw) (auto simp: Let_def split: sum.splits)

lemma VerifyProof_InrD:
  assumes "VerifyProof H r k ps = Inr v"
  shows "\<exists>pm usd. proofMap H ps = Inr (pm, usd) \<and> verifyProof r k pm usd = Inr v"
  using assms by (auto simp: VerifyProof_def split: sum.splits)


text \<open>
  C10: when some entry of the proof list does not decode, \<open>proofMap\<close> fails, and so do
  the composition \<open>VerifyProof\<close>, \<open>VerifyAccountProofByHash\<close> and, under a storage root
  that is neither the empty-trie root nor the zero digest, \<open>VerifyStorageProofByHash\<close>,
  each with the error of \<open>proofMap\<close> ("could not construct proofMap"): \<open>verifyProof\<close> is
  not reached, wherever the entry stands in the list and whether or not the traversal
  would resolve it.
\<close>

theorem malformed_entry_rejected:
  assumes "p \<in> set ps" and "decodeNode p = Inl e"
  shows "(\<exists>e'. proofMap H ps = Inl e')
       \<and> (\<exists>e'. VerifyProof H root k ps = Inl (ErrProofMap e'))
       \<and> (\<exists>e'. VerifyAccountProofByHash H root k (acc\<lparr>AccountProof := ps\<rparr>)
                 = Some (ErrProofMap e'))
       \<and> (root \<noteq> EmptyRoot \<and> root \<noteq> zeroHash \<longrightarrow>
            (\<exists>e'. VerifyStorageProofByHash H root k (sp\<lparr>Proof := ps\<rparr>)
                   = Some (ErrProofMap e')))"
proof -
  from proofMapLoop_decode_error[OF assms]
  obtain e' where "proofMap H ps = Inl e'"
    unfolding proofMap_def by blast
  then show ?thesis
    by (simp add: VerifyProof_def VerifyAccountProofByHash_def VerifyStorageProofByHash_def)
qed

theorem malformed_entry_rejected_witness:
  "[0x01] \<in> set [branchProof, [0x01]]
   \<and> decodeNode [0x01] = Inl ErrExpectedList
   \<and> VerifyProof digest32 (digest32 branchProof) (replicate 32 0x33) [branchProof] = Inr None
   \<and> VerifyProof digest32 (digest32 branchProof) (replicate 32 0x33) [branchProof, [0x01]]
       = Inl (ErrProofMap ErrExpectedList)
   \<and> VerifyAccountProofByHash digest32 (digest32 branchProof) (replicate 32 0x33)
        \<lparr>Address = [], AccountProof = [branchProof, [0x01]], Balance = 0, CodeHash = zeroHash,
         Nonce = 0, StorageHash = zeroHash, StorageProof = []\<rparr>
       = Some (ErrProofMap ErrExpectedList)
   \<and> digest32 branchProof \<noteq> EmptyRoot \<and> digest32 branchProof \<noteq> zeroHash
   \<and> VerifyStorageProofByHash digest32 (digest32 branchProof) (replicate 32 0x33)
        \<lparr>Key = [], Value = 0, Proof = [branchProof, [0x01]]\<rparr>
       = Some (ErrProofMap ErrExpectedList)"
proof -
  let ?acc = "\<lparr>Address = [], AccountProof = [], Balance = 0, CodeHash = zeroHash,
         Nonce = 0, StorageHash = zeroHash, StorageProof = []\<rparr>"
  let ?sp = "\<lparr>Key = [], Value = 0, Proof = []\<rparr>"
  have a: "[0x01] \<in> set [branchProof, [0x01]]" by simp
  have b: "decodeNode [0x01] = Inl ErrExpectedList" by code_simp
  have c: "VerifyProof digest32 (digest32 branchProof) (replicate 32 0x33) [branchProof] = Inr None"
    by code_simp
  have d: "VerifyProof digest32 (digest32 branchProof) (replicate 32 0x33) [branchProof, [0x01]]
       = Inl (ErrProofMap ErrExpectedList)"
    by code_simp
  have f: "VerifyAccountProofByHash digest32 (digest32 branchProof) (replicate 32 0x33)
        \<lparr>Address = [], AccountProof = [branchProof, [0x01]], Balance = 0, CodeHash = zeroHash,
         Nonce = 0, StorageHash = zeroHash, StorageProof = []\<rparr>
       = Some (ErrProofMap ErrExpectedList)"
    by code_simp
  have g: "digest32 branchProof \<noteq> EmptyRoot" by code_simp
  have h: "digest32 branchProof \<noteq> zeroHash" by code_simp
  have i: "VerifyStorageProofByHash digest32 (digest32 branchProof) (replicate 32 0x33)
        \<lparr>Key = [], Value = 0, Proof = [branchProof, [0x01]]\<rparr>
       = Some (ErrProofMap ErrExpectedList)"
    by code_simp
  from malformed_entry_rejected[OF a b, of digest32 "digest32 branchProof" "replicate 32 0x33"
         ?acc ?sp] a b c d f g h i
  show ?thesis by simp
qed

text \<open>
  C4 claims that an absent account verifies exactly when nonce and balance are zero, the
  storage root is the empty-trie root or the zero digest, and the code root is the zero
  digest. The code compares the storage root with the zero digest only: an absent
  account claimed with \<open>EmptyRoot\<close> as storage root, all other fields zero, is rejected.
\<close>

theorem absent_account_empty_root_counterexample:
  "VerifyProof digest32 (digest32 branchProof) (replicate 32 0x33) [branchProof] = Inr None
   \<and> VerifyAccountProofByHash digest32 (digest32 branchProof) (replicate 32 0x33)
        \<lparr>Address = [], AccountProof = [branchProof], Balance = 0, CodeHash = zeroHash,
         Nonce = 0, StorageHash = EmptyRoot, StorageProof = []\<rparr>
       = Some ErrAbsentStorageHash"
  by code_simp

text \<open>
  C4 as amended: when the verification of the account proof yields absence,
  \<open>VerifyAccountProofByHash\<close> succeeds exactly when the claimed nonce is zero, the
  claimed balance is zero, and the claimed storage root and code root both equal the
  all-zero digest.
\<close>

theorem VerifyAccountProofByHash_absent:
  assumes "VerifyProof H stateRoot accountKey (AccountProof prf) = Inr None"
  shows "VerifyAccountProofByHash H stateRoot accountKey prf = None
         \<longleftrightarrow> Nonce prf = 0 \<and> Balance prf = 0 \<and> StorageHash prf = zeroHash
             \<and> CodeHash prf = zeroHash"
proof -
  from VerifyProof_InrD[OF assms] obtain pm usd where
    pm: "proofMap H (AccountProof prf) = Inr (pm, usd)" and
    v: "verifyProof stateRoot accountKey pm usd = Inr None"
    by blast
  show ?thesis
    by (simp add: VerifyAccountProofByHash_def pm v sgn_if)
qed

theorem VerifyAccountProofByHash_absent_witness:
  "VerifyProof digest32 (digest32 branchProof) (replicate 32 0x33) [branchProof] = Inr None
   \<and> VerifyAccountProofByHash digest32 (digest32 branchProof) (replicate 32 0x33)
        \<lparr>Address = [], AccountProof = [branchProof], Balance = 0, CodeHash = zeroHash,
         Nonce = 0, StorageHash = zeroHash, StorageProof = []\<rparr>
       = None"
proof -
  let ?claimed = "\<lparr>Address = [], AccountProof = [branchProof], Balance = 0, CodeHash = zeroHash,
         Nonce = 0, StorageHash = zeroHash, StorageProof = []\<rparr>"
  have c: "VerifyProof digest32 (digest32 branchProof) (replicate 32 0x33) (AccountProof ?claimed) = Inr None"
    by code_simp
  from VerifyAccountProofByHash_absent[OF c] c show ?thesis by simp
qed

text \<open>
  C5 claims that a storage proof that yields absence, under a storage root other than
  the empty-trie root and the zero digest, is rejected when the claimed value is not
  zero. The code computes \<open>expected\<close> only when the verified value is not nil, so for
  an absent slot it compares nil with nil: the proof is accepted whatever the claimed
  value.
\<close>

theorem VerifyStorageProofByHash_absent_any_value:
  assumes "storageRoot \<noteq> EmptyRoot" and "storageRoot \<noteq> zeroHash"
    and "VerifyProof H storageRoot keyHash (Proof prf) = Inr None"
  shows "VerifyStorageProofByHash H storageRoot keyHash prf = None"
proof -
  from VerifyProof_InrD[OF assms(3)] obtain pm usd where
    pm: "proofMap H (Proof prf) = Inr (pm, usd)" and
    v: "verifyProof storageRoot keyHash pm usd = Inr None"
    by blast
  show ?thesis
    by (simp add: VerifyStorageProofByHash_def assms(1,2) pm v)
qed

theorem VerifyStorageProofByHash_absent_any_value_witness:
  "digest32 branchProof \<noteq> EmptyRoot \<and> digest32 branchProof \<noteq> zeroHash
   \<and> VerifyProof digest32 (digest32 branchProof) (replicate 32 0x33) [branchProof] = Inr None
   \<and> VerifyStorageProofByHash digest32 (digest32 branchProof) (replicate 32 0x33)
        \<lparr>Key = [], Value = 1, Proof = [branchProof]\<rparr> = None"
proof -
  let ?claimed = "\<lparr>Key = [], Value = 1, Proof = [branchProof]\<rparr>"
  have a: "digest32 branchProof \<noteq> EmptyRoot" by code_simp
  have b: "digest32 branchProof \<noteq> zeroHash" by code_simp
  have c: "VerifyProof digest32 (digest32 branchProof) (replicate 32 0x33) (Proof ?claimed) = Inr None"
    by code_simp
  from VerifyStorageProofByHash_absent_any_value[OF a b c] a b c show ?thesis by simp
qed

subsection \<open>An extraneous proof element\<close>

lemma map_of_append_Some: "map_of xs k = Some v \<Longrightarrow> map_of (xs @ ys) k = Some v"
  by (simp add: map_add_Some_iff)

lemma map_of_Some_key: "map_of xs k = Some v \<Longrightarrow> k \<in> fst ` set xs"
  by (metis map_of_eq_None_iff option.distinct(1))

lemma verifyStep_extra:
  assumes "he \<notin> fst ` set pm"
  shows "case verifyStep pm s of
           Inr s' \<Rightarrow> verifyStep (pm @ [(he, n)]) (withEntry he r s) = Inr (withEntry he r s')
         | Inl (Inr None) \<Rightarrow> verifyStep (pm @ [(he, n)]) (withEntry he r s) = Inl (Inr None)
         | Inl (Inr (Some v)) \<Rightarrow>
             verifyStep (pm @ [(he, n)]) (withEntry he r s) = Inl (Inl ErrUnusedElements)
         | Inl (Inl e) \<Rightarrow> True"
proof (cases "node s")
  case NilNode
  then show ?thesis by (simp add: verifyStep_def withEntry_def)
next
  case (ShortNode k v)
  then show ?thesis by (simp add: verifyStep_def withEntry_def)
next
  case (FullNode cs)
  then show ?thesis by (simp add: verifyStep_def withEntry_def Let_def)
next
  case (DuoNode m a b)
  then show ?thesis by (simp add: verifyStep_def withEntry_def)
next
  case (ValueNode v)
  then show ?thesis by (simp add: verifyStep_def withEntry_def)
next
  case (AccountNode a st)
  then show ?thesis by (simp add: verifyStep_def withEntry_def)
next
  case (HashNode hash)
  let ?h = "BytesToHash hash"
  show ?thesis
  proof (cases "map_of pm ?h")
    case None
    then show ?thesis using HashNode by (simp add: verifyStep_def withEntry_def)
  next
    case (Some m)
    then have "?h \<in> fst ` set pm" by (rule map_of_Some_key)
    then have ne: "?h \<noteq> he" using assms by blast
    have pm': "map_of (pm @ [(he, n)]) ?h = Some m"
      using Some by (rule map_of_append_Some)
    show ?thesis
    proof (cases "map_of (used s) ?h")
      case None
      then show ?thesis using HashNode \<open>map_of pm ?h = Some m\<close> pm' by (simp add: verifyStep_def withEntry_def)
    next
      case (Some raw)
      have u': "map_of (used s @ [(he, r)]) ?h = Some raw"
        using Some by (rule map_of_append_Some)
      have d: "AList.delete ?h (used s @ [(he, r)]) = AList.delete ?h (used s) @ [(he, r)]"
        using ne by (simp add: AList.delete_eq)
      show ?thesis
        using HashNode \<open>map_of pm ?h = Some m\<close> Some pm' u' d
        by (simp add: verifyStep_def withEntry_def)
    qed
  qed
qed

lemma verifyLoop_extra:
  assumes "he \<notin> fst ` set pm"
  shows "case verifyLoop pm s of
           Inr None \<Rightarrow> verifyLoop (pm @ [(he, n)]) (withEntry he r s) = Inr None
         | Inr (Some v) \<Rightarrow> verifyLoop (pm @ [(he, n)]) (withEntry he r s) = Inl ErrUnusedElements
         | Inl e \<Rightarrow> True"
  using assms
proof (induction pm s rule: verifyLoop.induct)
  case (1 pm s)
  note ext = verifyStep_extra[OF "1.prems", where s=s and n=n and r=r]
  show ?case
  proof (cases "verifyStep pm s")
    case (Inr s')
    then have st: "verifyStep (pm @ [(he, n)]) (withEntry he r s) = Inr (withEntry he r s')"
      using ext by simp
    have l: "verifyLoop pm s = verifyLoop pm s'"
      by (simp add: verifyLoop.simps[of pm s] Inr)
    have l': "verifyLoop (pm @ [(he, n)]) (withEntry he r s)
            = verifyLoop (pm @ [(he, n)]) (withEntry he r s')"
      by (simp add: verifyLoop.simps[of "pm @ [(he, n)]" "withEntry he r s"] st)
    from "1.IH"[OF Inr "1.prems"] show ?thesis
      unfolding l l' .
  next
    case (Inl res)
    then have l: "verifyLoop pm s = res"
      by (simp add: verifyLoop.simps[of pm s])
    show ?thesis
    proof (cases res)
      case (Inl e)
      then show ?thesis by (simp add: l)
    next
      case (Inr vo)
      show ?thesis
      proof (cases vo)
        case None
        then have "verifyStep (pm @ [(he, n)]) (withEntry he r s) = Inl (Inr None)"
          using ext \<open>verifyStep pm s = Inl res\<close> Inr by simp
        then show ?thesis
          by (simp add: l Inr None verifyLoop.simps[of "pm @ [(he, n)]" "withEntry he r s"])
      next
        case (Some v)
        then have "verifyStep (pm @ [(he, n)]) (withEntry he r s) = Inl (Inl ErrUnusedElements)"
          using ext \<open>verifyStep pm s = Inl res\<close> Inr by simp
        then show ?thesis
          by (simp add: l Inr Some verifyLoop.simps[of "pm @ [(he, n)]" "withEntry he r s"])
      qed
    qed
  qed
qed

lemma proofMapLoop_append:
  "proofMapLoop H i (xs @ [x]) res raw =
     (case proofMapLoop H i xs res raw of
        Inl e \<Rightarrow> Inl e
      | Inr (res', raw') \<Rightarrow>
         (case decodeNode x of
            Inl e \<Rightarrow> Inl e
          | Inr n \<Rightarrow> Inr (AList.update (H x) n res',
                         AList.update (H x) \<lparr>index = i + length xs, val = x\<rparr> raw')))"
  by (induction xs arbitrary: i res raw) (simp_all add: Let_def split: sum.splits)

lemma proofMapLoop_keys:
  assumes "proofMapLoop H i xs res raw = Inr (res', raw')"
  shows "fst ` set res' = fst ` set res \<union> H ` set xs
       \<and> fst ` set raw' = fst ` set raw \<union> H ` set xs"
  using assms
proof (induction xs arbitrary: i res raw)
  case Nil
  then show ?case by simp
next
  case (Cons x xs)
  from Cons.prems obtain n where n: "decodeNode x = Inr n"
    and rest: "proofMapLoop H (Suc i) xs (AList.update (H x) n res)
                 (AList.update (H x) \<lparr>index = i, val = x\<rparr> raw) = Inr (res', raw')"
    by (auto simp: Let_def split: sum.splits)
  from Cons.IH[OF rest] show ?case
    by (auto simp: dom_update)
qed

lemma update_fresh: "k \<notin> fst ` set al \<Longrightarrow> AList.update k v al = al @ [(k, v)]"
  by (induction al) auto

lemma proofMap_extra:
  assumes "proofMap H ps = Inr (pm, usd)" and "decodeNode extra = Inr n"
    and "H extra \<notin> H ` set ps"
  shows "proofMap H (ps @ [extra])
           = Inr (pm @ [(H extra, n)], usd @ [(H extra, \<lparr>index = length ps, val = extra\<rparr>)])"
    and "H extra \<notin> fst ` set pm"
proof -
  from proofMapLoop_keys[OF assms(1)[unfolded proofMap_def]] assms(3)
  have k: "H extra \<notin> fst ` set pm" "H extra \<notin> fst ` set usd"
    by auto
  show "H extra \<notin> fst ` set pm" by (rule k(1))
  show "proofMap H (ps @ [extra])
           = Inr (pm @ [(H extra, n)], usd @ [(H extra, \<lparr>index = length ps, val = extra\<rparr>)])"
    using assms(1,2) k
    by (simp add: proofMap_def proofMapLoop_append update_fresh)
qed

text \<open>
  C3 claims that one more unrelated, well-formed entry at the end of an accepted proof
  always gives the error "not all proof elements were used". This holds for a proof
  accepted with a value. A proof accepted with absence stays accepted: \<open>verifyProof\<close>
  returns \<open>nil, nil\<close> at the missing child or at the key mismatch and looks at \<open>used\<close>
  only in the case of a value node.
\<close>

theorem extraneous_entry:
  assumes "decodeNode extra = Inr n" and "H extra \<notin> H ` set ps"
  shows "(VerifyProof H root k ps = Inr None \<longrightarrow>
            VerifyProof H root k (ps @ [extra]) = Inr None)
       \<and> (\<forall>v. VerifyProof H root k ps = Inr (Some v) \<longrightarrow>
            VerifyProof H root k (ps @ [extra]) = Inl (ErrVerifyProof ErrUnusedElements))"
proof -
  have main: "VerifyProof H root k (ps @ [extra]) =
          (case res of None \<Rightarrow> Inr None | Some v \<Rightarrow> Inl (ErrVerifyProof ErrUnusedElements))"
    if a: "VerifyProof H root k ps = Inr res" for res
  proof -
    from VerifyProof_InrD[OF a] obtain pm usd where
      pm: "proofMap H ps = Inr (pm, usd)" and v: "verifyProof root k pm usd = Inr res"
      by blast
    note ex = proofMap_extra[OF pm assms]
    let ?s = "\<lparr>node = HashNode root, key = keybytesToHex k, nextIndex = 0, used = usd\<rparr>"
    let ?r = "\<lparr>index = length ps, val = extra\<rparr>"
    have s': "\<lparr>node = HashNode root, key = keybytesToHex k, nextIndex = 0,
               used = usd @ [(H extra, ?r)]\<rparr> = withEntry (H extra) ?r ?s"
      by (simp add: withEntry_def)
    have v': "verifyLoop pm ?s = Inr res"
      using v by (simp add: verifyProof_def)
    have "verifyProof root k (pm @ [(H extra, n)]) (usd @ [(H extra, ?r)])
            = (case res of None \<Rightarrow> Inr None | Some v \<Rightarrow> Inl ErrUnusedElements)"
      using verifyLoop_extra[OF ex(2), where s="?s" and n=n and r="?r"] v'
      unfolding verifyProof_def s'
      by (simp split: option.splits)
    then show ?thesis
      by (simp add: VerifyProof_def ex(1) split: option.splits)
  qed
  show ?thesis
    using main by (auto split: option.splits)
qed

theorem extraneous_entry_witness:
  "decodeNode leafProof = Inr (ShortNode (replicate 64 3 @ [16]) (ValueNode [0x61]))
   \<and> digest32 leafProof \<notin> digest32 ` set [branchProof]
   \<and> VerifyProof digest32 (digest32 branchProof) (replicate 32 0x33) [branchProof] = Inr None
   \<and> VerifyProof digest32 (digest32 branchProof) (replicate 32 0x33) [branchProof, leafProof]
       = Inr None
   \<and> (\<exists>n. decodeNode branchProof = Inr n)
   \<and> digest32 branchProof \<notin> digest32 ` set [leafProof]
   \<and> VerifyProof digest32 (digest32 leafProof) (replicate 32 0x33) [leafProof]
       = Inr (Some [0x61])
   \<and> VerifyProof digest32 (digest32 leafProof) (replicate 32 0x33) [leafProof, branchProof]
       = Inl (ErrVerifyProof ErrUnusedElements)"
proof -
  have a: "decodeNode leafProof = Inr (ShortNode (replicate 64 3 @ [16]) (ValueNode [0x61]))"
    by code_simp
  have b: "digest32 leafProof \<notin> digest32 ` set [branchProof]"
    by code_simp
  have c: "VerifyProof digest32 (digest32 branchProof) (replicate 32 0x33) [branchProof] = Inr None"
    by code_simp
  have a': "decodeNode branchProof
     = Inr (FullNode ([NilNode, HashNode (replicate 32 0x11), HashNode (replicate 32 0x22)]
              @ replicate 14 NilNode))"
    by code_simp
  have b': "digest32 branchProof \<notin> digest32 ` set [leafProof]"
    by code_simp
  have c': "VerifyProof digest32 (digest32 leafProof) (replicate 32 0x33) [leafProof]
       = Inr (Some [0x61])"
    by code_simp
  from extraneous_entry[OF a b, of "digest32 branchProof" "replicate 32 0x33"] c
  have d: "VerifyProof digest32 (digest32 branchProof) (replicate 32 0x33) [branchProof, leafProof]
       = Inr None"
    by simp
  from extraneous_entry[OF a' b', of "digest32 leafProof" "replicate 32 0x33"] c'
  have d': "VerifyProof digest32 (digest32 leafProof) (replicate 32 0x33) [leafProof, branchProof]
       = Inl (ErrVerifyProof ErrUnusedElements)"
    by simp
  from a b c d a' b' c' d' show ?thesis by simp
qed


subsection \<open>The builder and the verifier together\<close>

lemma BytesToHash_id: "length b = 32 \<Longrightarrow> BytesToHash b = b"
  by (simp add: BytesToHash_def)

lemma decode_smallTrieRLP: "decodeNode smallTrieRLP = Inr smallTrie"
  by code_simp

lemma decode_smallLeafRLP: "decodeNode smallLeafRLP = Inr (smallLeaf 0x61)"
  by code_simp

lemma verifyLoop_step: "verifyStep pm s = Inr s' \<Longrightarrow> verifyLoop pm s = verifyLoop pm s'"
  by (simp add: verifyLoop.simps[of pm s])

lemma verifyLoop_return: "verifyStep pm s = Inl r \<Longrightarrow> verifyLoop pm s = r"
  by (simp add: verifyLoop.simps[of pm s])

text \<open>
  C1 claims that, for every trie and every key, verifying the proof that \<open>Prove\<close>
  returns yields the trie's binding for the key, without error. \<open>Prove\<close> appends the
  encoding of every short, two-way and full node on the path, also of a node whose
  encoding is shorter than 32 bytes and so stands embedded in the encoding of its parent.
  The verifier meets such a node inside the decoded parent, never resolves it by its
  digest, and at the value node rejects the proof because an element is left unused.
  On \<open>smallTrie\<close> and the key \<open>01\<close>: for every serializer that gives the two nodes on
  the path the encodings above, and every digest function that returns 32 bytes and tells
  the two encodings apart, \<open>Prove\<close> returns both encodings, \<open>VerifyProof\<close> rejects that
  proof under the trie's root hash, and it accepts the root's encoding alone, with the
  value \<open>"a"\<close> that the trie binds to the key.
\<close>

theorem Prove_embedded_leaf_unused:
  assumes "hc smallTrie = Inr smallTrieRLP" and "hc (smallLeaf 0x61) = Inr smallLeafRLP"
    and "length (H smallTrieRLP) = 32" and "H smallTrieRLP \<noteq> H smallLeafRLP"
  shows "Prove hc smallTrie [0x01] 0 False = Inr [smallTrieRLP, smallLeafRLP]
       \<and> VerifyProof H (H smallTrieRLP) [0x01] [smallTrieRLP, smallLeafRLP]
           = Inl (ErrVerifyProof ErrUnusedElements)
       \<and> VerifyProof H (H smallTrieRLP) [0x01] [smallTrieRLP] = Inr (Some [0x61])"
proof -
  let ?hr = "H smallTrieRLP" and ?hl = "H smallLeafRLP"
  let ?leaf = "smallLeaf 0x61"
  have k: "butlast (keybytesToHex [0x01]) = [0, 1]" "keybytesToHex [0x01] = [0, 1, 16]"
    by (simp_all add: keybytesToHex_def nibbles_of_def)
  \<comment> \<open>the builder\<close>
  have p2: "ProveLoop hc False [] (ValueNode [0x61]) 0 [smallTrieRLP, smallLeafRLP]
              = Inr [smallTrieRLP, smallLeafRLP]"
    by (simp add: ProveLoop.simps)
  have p1: "ProveLoop hc False [1] ?leaf 0 [smallTrieRLP]
              = ProveLoop hc False [] (ValueNode [0x61]) 0 [smallTrieRLP, smallLeafRLP]"
    using assms(2)
    by (subst ProveLoop.simps) (simp add: smallLeaf_def emit_def decLevel_def)
  have c0: "smallTrie = FullNode (?leaf # smallLeaf 0x62 # smallLeaf 0x63 # replicate 14 NilNode)"
    by (simp add: smallTrie_def)
  have e0: "emit hc 0 (FullNode (?leaf # smallLeaf 0x62 # smallLeaf 0x63 # replicate 14 NilNode)) []
              = Inr [smallTrieRLP]"
    using assms(1) by (simp add: emit_def c0)
  have p0: "ProveLoop hc False [0, 1] smallTrie 0 []
              = ProveLoop hc False [1] ?leaf 0 [smallTrieRLP]"
    by (subst ProveLoop.simps) (simp add: c0 e0 decLevel_def)
  have prove: "Prove hc smallTrie [0x01] 0 False = Inr [smallTrieRLP, smallLeafRLP]"
    by (simp add: Prove_def k p0 p1 p2)
  \<comment> \<open>the verifier on the proof that the builder returns\<close>
  let ?r0 = "\<lparr>index = 0, val = smallTrieRLP\<rparr>" and ?r1 = "\<lparr>index = Suc 0, val = smallLeafRLP\<rparr>"
  let ?pm = "[(?hr, smallTrie), (?hl, ?leaf)]"
  have pm: "proofMap H [smallTrieRLP, smallLeafRLP] = Inr (?pm, [(?hr, ?r0), (?hl, ?r1)])"
    using assms(4)
    by (simp add: proofMap_def decode_smallTrieRLP decode_smallLeafRLP Let_def)
  let ?s0 = "\<lparr>node = HashNode ?hr, key = [0, 1, 16], nextIndex = 0, used = [(?hr, ?r0), (?hl, ?r1)]\<rparr>"
  let ?s1 = "\<lparr>node = smallTrie, key = [0, 1, 16], nextIndex = 1, used = [(?hl, ?r1)]\<rparr>"
  let ?s2 = "\<lparr>node = ?leaf, key = [1, 16], nextIndex = 1, used = [(?hl, ?r1)]\<rparr>"
  let ?s3 = "\<lparr>node = ValueNode [0x61], key = [], nextIndex = 1, used = [(?hl, ?r1)]\<rparr>"
  have st0: "verifyStep ?pm ?s0 = Inr ?s1"
    using assms(4) by (simp add: verifyStep_def BytesToHash_id[OF assms(3)])
  have st1: "verifyStep ?pm ?s1 = Inr ?s2"
    by (simp add: verifyStep_def c0) (simp add: smallLeaf_def)
  have st2: "verifyStep ?pm ?s2 = Inr ?s3"
    by (simp add: verifyStep_def smallLeaf_def)
  have st3: "verifyStep ?pm ?s3 = Inl (Inl ErrUnusedElements)"
    by (simp add: verifyStep_def)
  have "verifyLoop ?pm ?s0 = verifyLoop ?pm ?s1"
    by (rule verifyLoop_step[OF st0])
  also have "\<dots> = verifyLoop ?pm ?s2"
    by (rule verifyLoop_step[OF st1])
  also have "\<dots> = verifyLoop ?pm ?s3"
    by (rule verifyLoop_step[OF st2])
  also have "\<dots> = Inl ErrUnusedElements"
    by (rule verifyLoop_return[OF st3])
  finally have v: "verifyProof ?hr [0x01] ?pm [(?hr, ?r0), (?hl, ?r1)] = Inl ErrUnusedElements"
    unfolding verifyProof_def k .
  have verify: "VerifyProof H ?hr [0x01] [smallTrieRLP, smallLeafRLP]
                  = Inl (ErrVerifyProof ErrUnusedElements)"
    by (simp add: VerifyProof_def pm v)
  \<comment> \<open>the verifier on the root node alone\<close>
  let ?qm = "[(?hr, smallTrie)]"
  have qm: "proofMap H [smallTrieRLP] = Inr (?qm, [(?hr, ?r0)])"
    by (simp add: proofMap_def decode_smallTrieRLP Let_def)
  let ?t0 = "\<lparr>node = HashNode ?hr, key = [0, 1, 16], nextIndex = 0, used = [(?hr, ?r0)]\<rparr>"
  let ?t1 = "\<lparr>node = smallTrie, key = [0, 1, 16], nextIndex = 1, used = []\<rparr>"
  let ?t2 = "\<lparr>node = ?leaf, key = [1, 16], nextIndex = 1, used = []\<rparr>"
  let ?t3 = "\<lparr>node = ValueNode [0x61], key = [], nextIndex = 1, used = []\<rparr>"
  have tt0: "verifyStep ?qm ?t0 = Inr ?t1"
    by (simp add: verifyStep_def BytesToHash_id[OF assms(3)])
  have tt1: "verifyStep ?qm ?t1 = Inr ?t2"
    by (simp add: verifyStep_def c0) (simp add: smallLeaf_def)
  have tt2: "verifyStep ?qm ?t2 = Inr ?t3"
    by (simp add: verifyStep_def smallLeaf_def)
  have tt3: "verifyStep ?qm ?t3 = Inl (Inr (Some [0x61]))"
    by (simp add: verifyStep_def)
  have "verifyLoop ?qm ?t0 = verifyLoop ?qm ?t1"
    by (rule verifyLoop_step[OF tt0])
  also have "\<dots> = verifyLoop ?qm ?t2"
    by (rule verifyLoop_step[OF tt1])
  also have "\<dots> = verifyLoop ?qm ?t3"
    by (rule verifyLoop_step[OF tt2])
  also have "\<dots> = Inr (Some [0x61])"
    by (rule verifyLoop_return[OF tt3])
  finally have w: "verifyProof ?hr [0x01] ?qm [(?hr, ?r0)] = Inr (Some [0x61])"
    unfolding verifyProof_def k .
  have alone: "VerifyProof H ?hr [0x01] [smallTrieRLP] = Inr (Some [0x61])"
    by (simp add: VerifyProof_def qm w)
  from prove verify alone show ?thesis by simp
qed

theorem Prove_embedded_leaf_unused_witness:
  "hashChildren digest32 smallTrie = Inr smallTrieRLP
   \<and> hashChildren digest32 (smallLeaf 0x61) = Inr smallLeafRLP
   \<and> length (digest32 smallTrieRLP) = 32
   \<and> digest32 smallTrieRLP \<noteq> digest32 smallLeafRLP
   \<and> Prove (hashChildren digest32) smallTrie [0x01] 0 False = Inr [smallTrieRLP, smallLeafRLP]
   \<and> VerifyProof digest32 (digest32 smallTrieRLP) [0x01] [smallTrieRLP, smallLeafRLP]
       = Inl (ErrVerifyProof ErrUnusedElements)
   \<and> VerifyProof digest32 (digest32 smallTrieRLP) [0x01] [smallTrieRLP] = Inr (Some [0x61])"
proof -
  have a: "hashChildren digest32 smallTrie = Inr smallTrieRLP" by code_simp
  have b: "hashChildren digest32 (smallLeaf 0x61) = Inr smallLeafRLP" by code_simp
  have c: "length (digest32 smallTrieRLP) = 32" by code_simp
  have d: "digest32 smallTrieRLP \<noteq> digest32 smallLeafRLP" by code_simp
  from Prove_embedded_leaf_unused[OF a b c d] a b c d show ?thesis by simp
qed

end
